theory Spec2Isabelle
  imports Main
begin

section \<open>JavaScript values and errors\<close>

text \<open>
  The values that reach \<^verbatim>\<open>src/lib/sql-db.js\<close>: the SQL argument, the parameter set and
  the elements of the positional sequence. An object is its list of own properties,
  looked up with \<open>map_of\<close>; an own property named \<^verbatim>\<open>__proto__\<close> is a property
  like any other (\<^verbatim>\<open>JSON.parse\<close> makes such objects). Getters and proxies are outside
  this model.
\<close>

datatype jsval =
    JUndefined
  | JNull
  | JBool bool
  | JNum int
  | JStr string
  | JArr "jsval list"
  | JObj "(string \<times> jsval) list"

text \<open>What the driver hands back for a statement that ran.\<close>

datatype qresult = QResult (rowCount: nat) (rows: "jsval list")

text \<open>
  A JavaScript \<^verbatim>\<open>Error\<close>: its message and the \<^verbatim>\<open>data\<close> property that
  \<^verbatim>\<open>error.addData\<close> maintains (absent on a fresh error, here the empty list).
\<close>

datatype jserror = Error (message: string) (data: "(string \<times> datum) list")
  and datum = DVal jsval | DErr jserror

text \<open>\<^verbatim>\<open>_.isString\<close>, \<^verbatim>\<open>_.isArray\<close>, \<^verbatim>\<open>_.isObjectLike\<close> (non-null and of type object).\<close>

fun isString :: "jsval \<Rightarrow> bool" where
  "isString (JStr s) = True"
| "isString v = False"

fun isArray :: "jsval \<Rightarrow> bool" where
  "isArray (JArr xs) = True"
| "isArray v = False"

fun isObjectLike :: "jsval \<Rightarrow> bool" where
  "isObjectLike (JArr xs) = True"
| "isObjectLike (JObj kvs) = True"
| "isObjectLike v = False"

text \<open>
  Reading a value whose kind a preceding test has established: the characters of a
  string, the elements of an array, the own properties of an object.
\<close>

fun str_of :: "jsval \<Rightarrow> string" where
  "str_of (JStr s) = s"
| "str_of v = []"

fun elems_of :: "jsval \<Rightarrow> jsval list" where
  "elems_of (JArr xs) = xs"
| "elems_of v = []"

fun props_of :: "jsval \<Rightarrow> (string \<times> jsval) list" where
  "props_of (JObj kvs) = kvs"
| "props_of v = []"

section \<open>Parameter substitution: \<^verbatim>\<open>paramsToArray\<close>\<close>

text \<open>The character class \<^verbatim>\<open>[-_a-zA-Z0-9]\<close> of the placeholder pattern.\<close>

definition name_char :: "char \<Rightarrow> bool" where
  "name_char c \<longleftrightarrow>
     c \<in> set ''-_abcdefghijklmnopqrstuvwxyzABCDEFGHIJKLMNOPQRSTUVWXYZ0123456789''"

text \<open>
  \<^verbatim>\<open>re.exec(remainingSql)\<close> for \<^verbatim>\<open>re = /\$([-_a-zA-Z0-9]+)/\<close>: the leftmost position of a
  dollar sign followed by at least one name character, with the longest run of name
  characters after it (the quantifier is greedy). The result is \<open>(index, v)\<close>, where
  \<open>v\<close> is the captured group; the whole match has length \<open>1 + length v\<close>.
  \<open>None\<close> is JavaScript's \<^verbatim>\<open>null\<close>.
\<close>

fun re_exec :: "string \<Rightarrow> (nat \<times> string) option" where
  "re_exec [] = None"
| "re_exec (c # cs) =
     (if c = CHR ''$'' \<and> takeWhile name_char cs \<noteq> [] then Some (0, takeWhile name_char cs)
      else (case re_exec cs of None \<Rightarrow> None | Some (i, v) \<Rightarrow> Some (Suc i, v)))"

text \<open>The decimal digits of a number, as \<^verbatim>\<open>'$' + n\<close> prints them.\<close>

fun num_str :: "nat \<Rightarrow> string" where
  "num_str n =
     (if n < 10 then [char_of (48 + n)]
      else num_str (n div 10) @ [char_of (48 + n mod 10)])"

declare num_str.simps [simp del]

text \<open>\<^verbatim>\<open>Array.prototype.join\<close> on a list of strings.\<close>

fun join :: "string \<Rightarrow> string list \<Rightarrow> string" where
  "join sep [] = []"
| "join sep [x] = x"
| "join sep (x # y # ys) = x @ sep @ join sep (y # ys)"

text \<open>
  The binding of an array parameter of length \<open>k\<close> when \<open>n\<close> slots are already taken:
  \<^verbatim>\<open>'ARRAY[' + _.map(_.range(n + 1, n + k + 1), n => '$' + n).join(',') + ']'\<close>.
\<close>

definition array_binding :: "nat \<Rightarrow> nat \<Rightarrow> string" where
  "array_binding n k =
     ''ARRAY['' @ join '','' (map (\<lambda>i. ''$'' @ num_str i) [n + 1 ..< n + k + 1]) @ '']''"

text \<open>
  The local variables of \<^verbatim>\<open>paramsToArray\<close>; \<open>map_b\<close> holds the own properties of
  its \<^verbatim>\<open>map\<close>, which starts as \<^verbatim>\<open>{}\<close>.
\<close>

record subst_state =
  processedSql :: string
  remainingSql :: string
  nParams :: nat
  map_b :: "string \<rightharpoonup> string"
  paramsArray :: "jsval list"

text \<open>
  \<^verbatim>\<open>map\<close> is a plain object, so its prototype is in the way for one name.
  \<^verbatim>\<open>_(map).has(v)\<close> asks for an own property. \<^verbatim>\<open>map[v] = s\<close> with a string \<open>s\<close>
  makes an own property, except for the name \<^verbatim>\<open>__proto__\<close>: there the assignment
  reaches the setter of \<^verbatim>\<open>Object.prototype\<close>, which ignores a string, and nothing is
  stored. \<^verbatim>\<open>'...' + map[v]\<close> appends the own property; for \<^verbatim>\<open>__proto__\<close>, which is
  never one, it reads the prototype object, printed as \<^verbatim>\<open>[object Object]\<close>. The loop
  reads no other name before binding it (\<open>bind_name_bound\<close> below), so the last case
  of \<open>map_get\<close> is never reached.
\<close>

definition map_has :: "(string \<rightharpoonup> string) \<Rightarrow> string \<Rightarrow> bool" where
  "map_has m v \<longleftrightarrow> m v \<noteq> None"

definition map_set :: "(string \<rightharpoonup> string) \<Rightarrow> string \<Rightarrow> string \<Rightarrow> (string \<rightharpoonup> string)" where
  "map_set m v s = (if v = ''__proto__'' then m else m(v \<mapsto> s))"

definition map_get :: "(string \<rightharpoonup> string) \<Rightarrow> string \<Rightarrow> string" where
  "map_get m v =
     (case m v of
        Some s \<Rightarrow> s
      | None \<Rightarrow> if v = ''__proto__'' then ''[object Object]'' else ''undefined'')"

text \<open>
  The \<^verbatim>\<open>if (!_(map).has(v)) { ... }\<close> block of the loop body: allocate a binding for a
  name that \<^verbatim>\<open>map\<close> does not have, or fail when \<open>params\<close> has no such property.
\<close>

definition bind_name :: "(string \<times> jsval) list \<Rightarrow> string \<Rightarrow> subst_state \<Rightarrow> jserror + subst_state" where
  "bind_name params v st =
     (if map_has (map_b st) v then Inr st
      else (case map_of params v of
              None \<Rightarrow> Inl (Error (''Missing parameter: '' @ v) [])
            | Some (JArr xs) \<Rightarrow>
                Inr (st\<lparr>map_b := map_set (map_b st) v (array_binding (nParams st) (length xs)),
                        nParams := nParams st + length xs,
                        paramsArray := paramsArray st @ xs\<rparr>)
            | Some x \<Rightarrow>
                Inr (st\<lparr>nParams := nParams st + 1,
                        map_b := map_set (map_b st) v (''$'' @ num_str (nParams st + 1)),
                        paramsArray := paramsArray st @ [x]\<rparr>)))"

text \<open>The last two statements of the loop body, for the match \<open>(idx, v)\<close>.\<close>

definition advance :: "nat \<Rightarrow> string \<Rightarrow> subst_state \<Rightarrow> subst_state" where
  "advance idx v st =
     st\<lparr>processedSql := processedSql st @ take idx (remainingSql st) @ map_get (map_b st) v,
        remainingSql := drop (idx + (1 + length v)) (remainingSql st)\<rparr>"

lemma re_exec_bound: "re_exec s = Some (i, v) \<Longrightarrow> i < length s"
  by (induction s arbitrary: i) (auto split: if_splits option.splits)

text \<open>The \<^verbatim>\<open>while\<close> loop; it stops when the pattern no longer matches.\<close>

function (sequential) scan :: "(string \<times> jsval) list \<Rightarrow> subst_state \<Rightarrow> jserror + subst_state" where
  "scan params st =
     (case re_exec (remainingSql st) of
        None \<Rightarrow> Inr st
      | Some (idx, v) \<Rightarrow>
          (case bind_name params v st of
             Inl e \<Rightarrow> Inl e
           | Inr st' \<Rightarrow> scan params (advance idx v st')))"
  by pat_completeness auto


lemma bind_name_remainingSql: "bind_name params v st = Inr st' \<Longrightarrow> remainingSql st' = remainingSql st"
  by (auto simp: bind_name_def split: if_splits option.splits jsval.splits)

termination scan
proof (relation "measure (\<lambda>(params, st). length (remainingSql st))")
  show "wf (measure (\<lambda>(params, st). length (remainingSql st)))"
    by simp
next
  fix params :: "(string \<times> jsval) list" and st st' :: subst_state
    and x2 :: "nat \<times> string" and idx :: nat and v :: string
  assume m: "re_exec (remainingSql st) = Some x2" "(idx, v) = x2"
    and b: "bind_name params v st = Inr st'"
  from m have "idx < length (remainingSql st)"
    using re_exec_bound [of "remainingSql st" idx v] by simp
  with bind_name_remainingSql [OF b]
  show "((params, advance idx v st'), (params, st)) \<in> measure (\<lambda>(params, st). length (remainingSql st))"
    by (simp add: advance_def)
qed

declare scan.simps [simp del]

text \<open>
  \<^verbatim>\<open>paramsToArray(sql, params, callback)\<close>. The result is what the callback receives:
  \<open>Inl err\<close> for \<^verbatim>\<open>callback(err)\<close>, \<open>Inr (sql', values)\<close> for
  \<^verbatim>\<open>callback(null, sql', values)\<close>.
\<close>

definition paramsToArray :: "jsval \<Rightarrow> jsval \<Rightarrow> jserror + (string \<times> jsval list)" where
  "paramsToArray sql params =
     (if \<not> isString sql then Inl (Error ''SQL must be a string'' [])
      else if isArray params then Inr (str_of sql, elems_of params)
      else if \<not> isObjectLike params then Inl (Error ''params must be array or object'' [])
      else (case scan (props_of params)
                   \<lparr>processedSql = [], remainingSql = str_of sql, nParams = 0,
                    map_b = Map.empty, paramsArray = []\<rparr> of
              Inl e \<Rightarrow> Inl e
            | Inr st \<Rightarrow> Inr (processedSql st @ remainingSql st, paramsArray st)))"

section \<open>What a template refers to\<close>

text \<open>
  The successive matches of the pattern, as the loop meets them: each placeholder with
  the text between the previous match and it, and the text after the last match.
\<close>

function tokens :: "string \<Rightarrow> (string \<times> string) list" where
  "tokens s =
     (case re_exec s of
        None \<Rightarrow> []
      | Some (idx, v) \<Rightarrow> (take idx s, v) # tokens (drop (idx + (1 + length v)) s))"
  by pat_completeness auto
termination
  by (relation "measure length") (auto dest: re_exec_bound)

function trailing :: "string \<Rightarrow> string" where
  "trailing s =
     (case re_exec s of
        None \<Rightarrow> s
      | Some (idx, v) \<Rightarrow> trailing (drop (idx + (1 + length v)) s))"
  by pat_completeness auto
termination
  by (relation "measure length") (auto dest: re_exec_bound)

declare tokens.simps [simp del] trailing.simps [simp del]

definition names :: "string \<Rightarrow> string list" where
  "names s = map snd (tokens s)"

text \<open>The distinct names in the order of their first occurrence.\<close>

fun firsts_acc :: "string list \<Rightarrow> string list \<Rightarrow> string list" where
  "firsts_acc seen [] = seen"
| "firsts_acc seen (v # vs) = firsts_acc (if v \<in> set seen then seen else seen @ [v]) vs"

definition first_names :: "string \<Rightarrow> string list" where
  "first_names s = firsts_acc [] (names s)"

section \<open>The substitution as the specification words it\<close>

text \<open>
  Each distinct name takes one positional slot, or as many as its array has elements;
  the slots are handed out in the order of first occurrence, so the offset of a name
  is the number of slots of the names first seen before it. A scalar is referred to as
  \<open>$(offset + 1)\<close>, an array of length \<open>k\<close> as \<open>ARRAY[$(offset + 1),...,$(offset + k)]\<close>;
  every occurrence of a name is replaced by its binding and the values are listed once
  per distinct name. The name \<^verbatim>\<open>__proto__\<close> is no exception here.
\<close>

definition slots :: "(string \<times> jsval) list \<Rightarrow> string \<Rightarrow> nat" where
  "slots ps v = (case map_of ps v of Some (JArr xs) \<Rightarrow> length xs | _ \<Rightarrow> 1)"

definition values_of :: "(string \<times> jsval) list \<Rightarrow> string \<Rightarrow> jsval list" where
  "values_of ps v = (case map_of ps v of Some (JArr xs) \<Rightarrow> xs | Some x \<Rightarrow> [x] | None \<Rightarrow> [])"

definition offset :: "(string \<times> jsval) list \<Rightarrow> string list \<Rightarrow> string \<Rightarrow> nat" where
  "offset ps order v = sum_list (map (slots ps) (takeWhile (\<lambda>w. w \<noteq> v) order))"

text \<open>
  The value of a decimal numeral, and the references as the specification writes them:
  \<open>$n\<close> is a dollar sign and the decimal numeral of \<open>n\<close>; the array constructor lists
  the references \<open>$(i+1)\<close> to \<open>$(i+k)\<close> between \<open>ARRAY[\<close> and \<open>]\<close>, with a comma
  before each but the first.
\<close>

definition dec_value :: "string \<Rightarrow> nat" where
  "dec_value s = foldl (\<lambda>a c. 10 * a + (of_char c - 48)) 0 s"

definition is_decimal :: "nat \<Rightarrow> string \<Rightarrow> bool" where
  "is_decimal n s \<longleftrightarrow>
     s \<noteq> [] \<and> set s \<subseteq> set ''0123456789'' \<and> dec_value s = n \<and> (hd s = CHR ''0'' \<longrightarrow> s = ''0'')"

fun spec_array :: "string list \<Rightarrow> string" where
  "spec_array [] = ''ARRAY[]''"
| "spec_array (r # rs) = ''ARRAY['' @ r @ concat (map (\<lambda>r'. '','' @ r') rs) @ '']''"

definition binding :: "(string \<times> jsval) list \<Rightarrow> string list \<Rightarrow> string \<Rightarrow> string" where
  "binding ps order v =
     (case map_of ps v of
        Some (JArr xs) \<Rightarrow> array_binding (offset ps order v) (length xs)
      | _ \<Rightarrow> ''$'' @ num_str (offset ps order v + 1))"

definition render :: "(string \<Rightarrow> string) \<Rightarrow> (string \<times> string) list \<Rightarrow> string \<Rightarrow> string" where
  "render B toks rest = concat (map (\<lambda>(t, v). t @ B v) toks) @ rest"

definition spec_substitute :: "(string \<times> jsval) list \<Rightarrow> string \<Rightarrow> string \<times> jsval list" where
  "spec_substitute ps sql =
     (render (binding ps (first_names sql)) (tokens sql) (trailing sql),
      concat (map (values_of ps) (first_names sql)))"

text \<open>
  Two invariants of the loop. The first holds whatever the names are: a name that
  \<^verbatim>\<open>map\<close> has is a property of \<open>params\<close>. The second is for templates without the
  name \<^verbatim>\<open>__proto__\<close>, with the list \<open>seen\<close> of the names bound so far, in the order in
  which they were bound.
\<close>

definition bound_present :: "(string \<times> jsval) list \<Rightarrow> subst_state \<Rightarrow> bool" where
  "bound_present ps st \<longleftrightarrow> (\<forall>v. map_b st v \<noteq> None \<longrightarrow> map_of ps v \<noteq> None)"

definition scan_inv :: "(string \<times> jsval) list \<Rightarrow> string list \<Rightarrow> subst_state \<Rightarrow> bool" where
  "scan_inv ps seen st \<longleftrightarrow>
     distinct seen \<and>
     (\<forall>v\<in>set seen. map_of ps v \<noteq> None) \<and>
     (\<forall>v. map_b st v = (if v \<in> set seen then Some (binding ps seen v) else None)) \<and>
     nParams st = sum_list (map (slots ps) seen) \<and>
     paramsArray st = concat (map (values_of ps) seen)"

section \<open>Errors with context: \<^verbatim>\<open>error.addData\<close>\<close>

fun set_prop :: "(string \<times> 'a) list \<Rightarrow> string \<Rightarrow> 'a \<Rightarrow> (string \<times> 'a) list" where
  "set_prop [] k v = [(k, v)]"
| "set_prop ((k', v') # kvs) k v = (if k' = k then (k, v) # kvs else (k', v') # set_prop kvs k v)"

fun assign :: "(string \<times> 'a) list \<Rightarrow> (string \<times> 'a) list \<Rightarrow> (string \<times> 'a) list" where
  "assign d [] = d"
| "assign d ((k, v) # kvs) = assign (set_prop d k v) kvs"

text \<open>
  Modelled from the spec: \<^verbatim>\<open>addData\<close> of \<^verbatim>\<open>lib/error.js\<close>, which is not among the
  sources. It attaches the given properties to the error as structured context and
  returns that same error: the message is kept, a property already present is overwritten.
\<close>

definition addData :: "jserror \<Rightarrow> (string \<times> datum) list \<Rightarrow> jserror" where
  "addData err props = Error (message err) (assign (data err) props)"

text \<open>
  \<^verbatim>\<open>JSON.parse(JSON.stringify(x))\<close>. In an object a property whose value is
  \<^verbatim>\<open>undefined\<close> is left out, in an array such an element becomes \<^verbatim>\<open>null\<close>. Of an
  \<^verbatim>\<open>Error\<close> the enumerable properties remain: its \<^verbatim>\<open>data\<close>, if it has one, and not
  its message. No value of these types makes \<^verbatim>\<open>JSON.stringify\<close> throw (that takes a
  cyclic structure or a \<^verbatim>\<open>BigInt\<close>).
\<close>

fun json :: "jsval \<Rightarrow> jsval" where
  "json (JArr xs) = JArr (map (\<lambda>x. if x = JUndefined then JNull else json x) xs)"
| "json (JObj kvs) =
     JObj (concat (map (\<lambda>(k, x). if x = JUndefined then [] else [(k, json x)]) kvs))"
| "json v = v"

fun json_error :: "jserror \<Rightarrow> (string \<times> jsval) list"
  and json_datum :: "datum \<Rightarrow> jsval option" where
  "json_error (Error m d) =
     (if d = [] then []
      else [(''data'',
             JObj (concat (map (\<lambda>(k, x). case json_datum x of None \<Rightarrow> [] | Some j \<Rightarrow> [(k, j)]) d)))])"
| "json_datum (DVal v) = (if v = JUndefined then None else Some (json v))"
| "json_datum (DErr e) = Some (JObj (json_error e))"

text \<open>
  The \<^verbatim>\<open>sqlError\<close> that \<^verbatim>\<open>queryWithClient\<close> and \<^verbatim>\<open>query\<close> attach:
  \<^verbatim>\<open>sqlError = JSON.parse(JSON.stringify(err)); sqlError.message = err.message\<close>.
\<close>

definition sqlError_of :: "jserror \<Rightarrow> jsval" where
  "sqlError_of err = JObj (set_prop (json_error err) ''message'' (JStr (message err)))"

section \<open>The driver and the pool\<close>

text \<open>
  The \<^verbatim>\<open>pg\<close> driver is outside the program. What the program does to it is
  recorded as a log of events; what it answers is a parameter of the model and may depend
  on everything that happened before. The calls are asynchronous in the source and in
  direct style here: the driver answers every call once, and the value a function returns
  is what it passes to its callback.
\<close>

type_synonym client = nat

text \<open>
  \<open>Release c b\<close> is a call of the \<^verbatim>\<open>done\<close> function that came with client \<open>c\<close>;
  \<open>b\<close> tells whether its argument was truthy (then the pool discards the client).
  \<open>Query c text values\<close> is \<^verbatim>\<open>client.query(text, values, cb)\<close>, with \<open>None\<close>
  when no values are passed.
\<close>

datatype event =
    Connect
  | Release client bool
  | Query client string "jsval list option"
  | SetTimeout nat

text \<open>What \<^verbatim>\<open>pool.connect\<close> passes to its callback: \<^verbatim>\<open>(null, client, done)\<close> or
  \<^verbatim>\<open>(err, client, done)\<close> with a client that may be absent.\<close>

datatype conn_outcome = Connected client | ConnFailed jserror "client option"

record driver =
  new_pool :: "jsval \<Rightarrow> jserror option"
  connect :: "event list \<Rightarrow> conn_outcome"
  run_query :: "event list \<Rightarrow> client \<Rightarrow> string \<Rightarrow> jsval list option \<Rightarrow> jserror + qresult"

text \<open>The module state (\<open>pool\<close>: whether the variable \<^verbatim>\<open>pool\<close> is set) and the log.\<close>

record world =
  pool :: bool
  log :: "event list"

definition emit :: "event \<Rightarrow> world \<Rightarrow> world" where
  "emit e w = w\<lparr>log := log w @ [e]\<rparr>"

text \<open>\<^verbatim>\<open>if (client) { done(client); }\<close>\<close>

fun release_if_client :: "client option \<Rightarrow> world \<Rightarrow> world" where
  "release_if_client None w = w"
| "release_if_client (Some c) w = emit (Release c True) w"

definition getClient :: "driver \<Rightarrow> world \<Rightarrow> (jserror + client) \<times> world" where
  "getClient d w =
     (if \<not> pool w then (Inl (Error ''Connection pool is not open'' []), w)
      else (case connect d (log w) of
              ConnFailed err cl \<Rightarrow> (Inl err, release_if_client cl (emit Connect w))
            | Connected c \<Rightarrow> (Inr c, emit Connect w)))"

definition queryWithClient ::
  "driver \<Rightarrow> client \<Rightarrow> jsval \<Rightarrow> jsval \<Rightarrow> world \<Rightarrow> (jserror + qresult) \<times> world" where
  "queryWithClient d client sql params w =
     (case paramsToArray sql params of
        Inl err \<Rightarrow> (Inl (addData err [(''sql'', DVal sql), (''sqlParams'', DVal params)]), w)
      | Inr (newSql, newParams) \<Rightarrow>
          (case run_query d (log w) client newSql (Some newParams) of
             Inl err \<Rightarrow>
               (Inl (addData err [(''sqlError'', DVal (sqlError_of err)), (''sql'', DVal sql),
                                  (''sqlParams'', DVal params), (''result'', DVal JUndefined)]),
                emit (Query client newSql (Some newParams)) w)
           | Inr result \<Rightarrow> (Inr result, emit (Query client newSql (Some newParams)) w)))"

text \<open>\<^verbatim>\<open>rollbackWithClient\<close>: \<^verbatim>\<open>done(err)\<close> is called with whatever the rollback gave.\<close>

definition rollbackWithClient :: "driver \<Rightarrow> client \<Rightarrow> world \<Rightarrow> jserror option \<times> world" where
  "rollbackWithClient d client w =
     (case run_query d (log w) client ''ROLLBACK;'' None of
        Inl err \<Rightarrow> (Some err, emit (Release client True) (emit (Query client ''ROLLBACK;'' None) w))
      | Inr result \<Rightarrow> (None, emit (Release client False) (emit (Query client ''ROLLBACK;'' None) w)))"

definition beginTransaction :: "driver \<Rightarrow> world \<Rightarrow> (jserror + client) \<times> world" where
  "beginTransaction d w =
     (case getClient d w of
        (Inl err, w1) \<Rightarrow> (Inl err, w1)
      | (Inr client, w1) \<Rightarrow>
          (case queryWithClient d client (JStr ''START TRANSACTION;'') (JArr []) w1 of
             (Inl err, w2) \<Rightarrow>
               (case rollbackWithClient d client w2 of
                  (Some rollbackErr, w3) \<Rightarrow> (Inl rollbackErr, w3)
                | (None, w3) \<Rightarrow> (Inl err, w3))
           | (Inr result, w2) \<Rightarrow> (Inr client, w2)))"

text \<open>
  \<^verbatim>\<open>endTransaction(client, done, err, callback)\<close>; \<open>done\<close> is the release function of
  \<open>client\<close>, and \<open>err\<close> the outcome: \<open>None\<close> for \<^verbatim>\<open>null\<close>.
\<close>

definition endTransaction :: "driver \<Rightarrow> client \<Rightarrow> jserror option \<Rightarrow> world \<Rightarrow> jserror option \<times> world" where
  "endTransaction d client err w =
     (case err of
        Some e \<Rightarrow>
          (case rollbackWithClient d client w of
             (Some rollbackErr, w1) \<Rightarrow>
               (Some (addData rollbackErr [(''prevErr'', DErr e), (''rollback'', DVal (JStr ''fail''))]), w1)
           | (None, w1) \<Rightarrow> (Some (addData e [(''rollback'', DVal (JStr ''success''))]), w1))
      | None \<Rightarrow>
          (case queryWithClient d client (JStr ''COMMIT'') (JArr []) w of
             (Inl e, w1) \<Rightarrow> (Some e, emit (Release client False) w1)
           | (Inr result, w1) \<Rightarrow> (None, emit (Release client False) w1)))"

text \<open>
  The \<^verbatim>\<open>handleError\<close> closure of \<^verbatim>\<open>query\<close>, called with an error: it releases the
  client if there is one and yields the error, with its context, for the callback.
\<close>

definition handleError :: "client option \<Rightarrow> jsval \<Rightarrow> jsval \<Rightarrow> jserror \<Rightarrow> world \<Rightarrow> jserror \<times> world" where
  "handleError cl sql params err w =
     (addData err [(''sqlError'', DVal (sqlError_of err)), (''sql'', DVal sql), (''sqlParams'', DVal params)],
      release_if_client cl w)"

definition query :: "driver \<Rightarrow> jsval \<Rightarrow> jsval \<Rightarrow> world \<Rightarrow> (jserror + qresult) \<times> world" where
  "query d sql params w =
     (if \<not> pool w then (Inl (Error ''Connection pool is not open'' []), w)
      else (case connect d (log w) of
              ConnFailed err cl \<Rightarrow>
                (case handleError cl sql params err (emit Connect w) of (e, w1) \<Rightarrow> (Inl e, w1))
            | Connected client \<Rightarrow>
                (case paramsToArray sql params of
                   Inl err \<Rightarrow>
                     (Inl (addData err [(''sql'', DVal sql), (''sqlParams'', DVal params)]), emit Connect w)
                 | Inr (newSql, newParams) \<Rightarrow>
                     (case run_query d (log (emit Connect w)) client newSql (Some newParams) of
                        Inl err \<Rightarrow>
                          (case handleError (Some client) sql params err
                                  (emit (Query client newSql (Some newParams)) (emit Connect w)) of
                             (e, w1) \<Rightarrow> (Inl e, w1))
                      | Inr result \<Rightarrow>
                          (Inr result,
                           emit (Release client False)
                             (emit (Query client newSql (Some newParams)) (emit Connect w)))))))"





section \<open>Reading the log\<close>

text \<open>The events a call added, and the releases, statements, delays and connection
  attempts among a list of events.\<close>

definition new_events :: "world \<Rightarrow> world \<Rightarrow> event list" where
  "new_events w w' = drop (length (log w)) (log w')"

fun release_of :: "event \<Rightarrow> (client \<times> bool) list" where
  "release_of (Release c b) = [(c, b)]"
| "release_of e = []"

fun statement_of :: "event \<Rightarrow> string list" where
  "statement_of (Query c text vs) = [text]"
| "statement_of e = []"



definition releases :: "event list \<Rightarrow> (client \<times> bool) list" where
  "releases evs = concat (map release_of evs)"

definition statements :: "event list \<Rightarrow> string list" where
  "statements evs = concat (map statement_of evs)"



text \<open>Drivers used as concrete inputs below.\<close>

definition steady_driver :: driver where
  "steady_driver =
     \<lparr>new_pool = (\<lambda>cfg. None), connect = (\<lambda>h. Connected 0),
      run_query = (\<lambda>h c text vs. Inr (QResult 0 []))\<rparr>"

definition failing_driver :: driver where
  "failing_driver =
     \<lparr>new_pool = (\<lambda>cfg. None), connect = (\<lambda>h. Connected 0),
      run_query = (\<lambda>h c text vs.
         if text = ''START TRANSACTION;'' then Inl (Error ''begin failed'' [])
         else if text = ''ROLLBACK;'' then Inl (Error ''rollback failed'' [])
         else Inr (QResult 0 []))\<rparr>"

definition stuck_driver :: driver where
  "stuck_driver =
     \<lparr>new_pool = (\<lambda>cfg. None), connect = (\<lambda>h. Connected 0),
      run_query = (\<lambda>h c text vs.
         if text = ''COMMIT'' then Inl (Error ''commit failed'' [])
         else if text = ''ROLLBACK;'' then Inl (Error ''rollback failed'' [])
         else Inr (QResult 0 []))\<rparr>"



definition start_world :: world where
  "start_world = \<lparr>pool = True, log = []\<rparr>"

section \<open>The loop against the specification\<close>

lemma firsts_acc_extends: "\<exists>ys. firsts_acc seen vs = seen @ ys"
  by (induction vs arbitrary: seen) (auto, metis append.assoc)

lemma offset_stable: "v \<in> set seen \<Longrightarrow> offset ps (seen @ ys) v = offset ps seen v"
  by (simp add: offset_def takeWhile_append1 [where P = "\<lambda>w. w \<noteq> v"]) 

lemma binding_stable: "v \<in> set seen \<Longrightarrow> binding ps (seen @ ys) v = binding ps seen v"
  by (simp add: binding_def offset_stable cong: option.case_cong jsval.case_cong)

lemma binding_firsts_acc: "v \<in> set seen \<Longrightarrow> binding ps (firsts_acc seen vs) v = binding ps seen v"
  using firsts_acc_extends [of seen vs] by (auto simp: binding_stable)

lemma offset_fresh: "v \<notin> set seen \<Longrightarrow> offset ps (seen @ [v]) v = sum_list (map (slots ps) seen)"
  unfolding offset_def by (induction seen) auto

lemma bind_name_bound:
  "bind_name ps v st = Inr st' \<Longrightarrow> v \<noteq> ''__proto__'' \<Longrightarrow> map_b st' v \<noteq> None"
  by (auto simp: bind_name_def map_has_def map_set_def split: if_splits option.splits jsval.splits)

lemma bind_name_seen:
  "scan_inv ps seen st \<Longrightarrow> v \<in> set seen \<Longrightarrow> bind_name ps v st = Inr st"
  by (simp add: scan_inv_def bind_name_def map_has_def)

lemma bind_name_fresh:
  assumes "scan_inv ps seen st" "v \<notin> set seen" "map_of ps v \<noteq> None" "v \<noteq> ''__proto__''"
  shows "\<exists>st'. bind_name ps v st = Inr st' \<and> scan_inv ps (seen @ [v]) st'
           \<and> processedSql st' = processedSql st \<and> remainingSql st' = remainingSql st"
proof -
  from assms(3) obtain x where x: "map_of ps v = Some x" by auto
  have b: "\<And>w. w \<in> set seen \<Longrightarrow> binding ps (seen @ [v]) w = binding ps seen w"
    by (rule binding_stable)
  have m: "\<not> map_has (map_b st) v" using assms(1,2) by (simp add: scan_inv_def map_has_def)
  have u: "\<And>s. map_set (map_b st) v s = (map_b st)(v \<mapsto> s)"
    using assms(4) by (simp add: map_set_def)
  show ?thesis
  proof (cases "isArray x")
    case True
    then obtain xs where "x = JArr xs" by (cases x) auto
    with x m u assms(1,2) b show ?thesis
      by (simp add: scan_inv_def bind_name_def slots_def values_of_def binding_def offset_fresh)
  next
    case False
    with x m u assms(1,2) b show ?thesis
      by (cases x) (simp_all add: scan_inv_def bind_name_def slots_def values_of_def binding_def offset_fresh)
  qed
qed


lemma scan_inv_advance: "scan_inv ps seen st \<Longrightarrow> scan_inv ps seen (advance idx v st)"
  by (simp add: scan_inv_def advance_def)

lemma tokens_None: "re_exec s = None \<Longrightarrow> tokens s = []"
  by (simp add: tokens.simps [of s])

lemma tokens_Some:
  "re_exec s = Some (idx, v) \<Longrightarrow> tokens s = (take idx s, v) # tokens (drop (idx + (1 + length v)) s)"
  by (simp add: tokens.simps [of s])

lemma trailing_None: "re_exec s = None \<Longrightarrow> trailing s = s"
  by (simp add: trailing.simps [of s])

lemma trailing_Some:
  "re_exec s = Some (idx, v) \<Longrightarrow> trailing s = trailing (drop (idx + (1 + length v)) s)"
  by (simp add: trailing.simps [of s])

lemma render_Cons: "render B ((t, v) # toks) rest = t @ B v @ render B toks rest"
  by (simp add: render_def)

lemma scan_refines:
  assumes "scan_inv ps seen st" "\<forall>v\<in>set (names (remainingSql st)). map_of ps v \<noteq> None"
    and "''__proto__'' \<notin> set (names (remainingSql st))"
  shows "\<exists>st'. scan ps st = Inr st' \<and>
           processedSql st' @ remainingSql st' =
             processedSql st @ render (binding ps (firsts_acc seen (names (remainingSql st))))
                                 (tokens (remainingSql st)) (trailing (remainingSql st)) \<and>
           paramsArray st' = concat (map (values_of ps) (firsts_acc seen (names (remainingSql st)))) \<and>
           nParams st' = sum_list (map (slots ps) (firsts_acc seen (names (remainingSql st))))"
  using assms
proof (induction ps st arbitrary: seen rule: scan.induct)
  case (1 ps st)
  let ?r = "remainingSql st"
  show ?case
  proof (cases "re_exec ?r")
    case None
    then have "scan ps st = Inr st" by (simp add: scan.simps [of ps st])
    moreover have "names ?r = []" using None by (simp add: names_def tokens_None)
    ultimately show ?thesis
      using None "1.prems"(1) by (simp add: tokens_None trailing_None render_def scan_inv_def)
  next
    case (Some m)
    obtain idx v where m: "m = (idx, v)" by (cases m)
    let ?r' = "drop (idx + (1 + length v)) ?r"
    let ?seen' = "if v \<in> set seen then seen else seen @ [v]"
    have ex: "re_exec ?r = Some (idx, v)" using Some m by simp
    have nm: "names ?r = v # names ?r'" using ex by (simp add: names_def tokens_Some)
    have present: "map_of ps v \<noteq> None" using "1.prems"(2) nm by simp
    have plain: "v \<noteq> ''__proto__''" using "1.prems"(3) nm by auto
    obtain st1 where b: "bind_name ps v st = Inr st1" and i1: "scan_inv ps ?seen' st1"
      and p1: "processedSql st1 = processedSql st" and r1: "remainingSql st1 = ?r"
    proof (cases "v \<in> set seen")
      case True
      with bind_name_seen [OF "1.prems"(1) True] "1.prems"(1) that show ?thesis by simp
    next
      case False
      with bind_name_fresh [OF "1.prems"(1) False present plain] that show ?thesis by auto
    qed
    let ?st2 = "advance idx v st1"
    have i2: "scan_inv ps ?seen' ?st2" using i1 by (rule scan_inv_advance)
    have r2: "remainingSql ?st2 = ?r'" using r1 by (simp add: advance_def)
    have vin: "v \<in> set ?seen'" by simp
    have mv: "map_get (map_b st1) v = binding ps ?seen' v"
      using i1 vin by (simp add: scan_inv_def map_get_def)
    have p2: "processedSql ?st2 = processedSql st @ take idx ?r @ binding ps ?seen' v"
      using p1 r1 mv by (simp add: advance_def)
    have all': "\<forall>w\<in>set (names (remainingSql ?st2)). map_of ps w \<noteq> None"
      using "1.prems"(2) nm r2 by simp
    have plain': "''__proto__'' \<notin> set (names (remainingSql ?st2))"
      using "1.prems"(3) nm r2 by simp
    have F: "firsts_acc seen (names ?r) = firsts_acc ?seen' (names ?r')" using nm by simp
    from "1.IH" [OF Some m [symmetric] b i2 all' plain']
    obtain st' where s': "scan ps ?st2 = Inr st'"
      and out: "processedSql st' @ remainingSql st' =
             processedSql ?st2 @ render (binding ps (firsts_acc ?seen' (names ?r')))
                                 (tokens ?r') (trailing ?r')"
      and arr: "paramsArray st' = concat (map (values_of ps) (firsts_acc ?seen' (names ?r')))"
      and cnt: "nParams st' = sum_list (map (slots ps) (firsts_acc ?seen' (names ?r')))"
      unfolding r2 by blast
    have sc: "scan ps st = scan ps ?st2" using ex b by (simp add: scan.simps [of ps st])
    have bf: "binding ps (firsts_acc ?seen' (names ?r')) v = binding ps ?seen' v"
      using vin by (rule binding_firsts_acc)
    have "processedSql st' @ remainingSql st' =
             processedSql st @ render (binding ps (firsts_acc seen (names ?r))) (tokens ?r) (trailing ?r)"
      unfolding out p2 F tokens_Some [OF ex] trailing_Some [OF ex] render_Cons bf by simp
    with s' sc arr cnt F show ?thesis by simp
  qed
qed

lemma scan_inv_init:
  "scan_inv ps [] \<lparr>processedSql = [], remainingSql = s, nParams = 0, map_b = Map.empty, paramsArray = []\<rparr>"
  by (simp add: scan_inv_def)

lemma paramsToArray_refines:
  assumes "\<forall>v\<in>set (names sql). map_of ps v \<noteq> None" and "''__proto__'' \<notin> set (names sql)"
  shows "paramsToArray (JStr sql) (JObj ps) = Inr (spec_substitute ps sql)"
proof -
  let ?st0 = "\<lparr>processedSql = [], remainingSql = sql, nParams = 0, map_b = Map.empty, paramsArray = []\<rparr>"
  from scan_refines [OF scan_inv_init [of ps sql]] assms
  obtain st' where "scan ps ?st0 = Inr st'"
    "processedSql st' @ remainingSql st' = render (binding ps (first_names sql)) (tokens sql) (trailing sql)"
    "paramsArray st' = concat (map (values_of ps) (first_names sql))"
    by (auto simp: first_names_def)
  then show ?thesis by (simp add: paramsToArray_def spec_substitute_def)
qed


lemma bound_present_init:
  "bound_present ps \<lparr>processedSql = [], remainingSql = s, nParams = 0, map_b = Map.empty, paramsArray = []\<rparr>"
  by (simp add: bound_present_def)

lemma bound_present_advance: "bound_present ps st \<Longrightarrow> bound_present ps (advance idx v st)"
  by (simp add: bound_present_def advance_def)

lemma bind_name_absent:
  "bound_present ps st \<Longrightarrow> map_of ps v = None \<Longrightarrow>
     bind_name ps v st = Inl (Error (''Missing parameter: '' @ v) [])"
  by (auto simp: bound_present_def bind_name_def map_has_def)

lemma bind_name_present:
  assumes "bound_present ps st" and "map_of ps v \<noteq> None"
  shows "\<exists>st'. bind_name ps v st = Inr st' \<and> bound_present ps st' \<and> remainingSql st' = remainingSql st"
proof -
  from assms(2) obtain x where x: "map_of ps v = Some x" by auto
  have k: "\<And>s w. map_set (map_b st) v s w \<noteq> None \<Longrightarrow> map_of ps w \<noteq> None"
    using assms(1) x by (auto simp: bound_present_def map_set_def split: if_splits)
  show ?thesis
  proof (cases "map_has (map_b st) v")
    case True
    with assms(1) show ?thesis by (simp add: bind_name_def)
  next
    case False
    with x k show ?thesis
      by (cases x) (auto simp: bind_name_def bound_present_def)
  qed
qed

lemma scan_missing:
  assumes "bound_present ps st" "find (\<lambda>v. map_of ps v = None) (names (remainingSql st)) = Some w"
  shows "scan ps st = Inl (Error (''Missing parameter: '' @ w) [])"
  using assms
proof (induction ps st rule: scan.induct)
  case (1 ps st)
  let ?r = "remainingSql st"
  show ?case
  proof (cases "re_exec ?r")
    case None
    then have "names ?r = []" by (simp add: names_def tokens_None)
    with "1.prems"(2) show ?thesis by simp
  next
    case (Some m)
    obtain idx v where m: "m = (idx, v)" by (cases m)
    let ?r' = "drop (idx + (1 + length v)) ?r"
    have ex: "re_exec ?r = Some (idx, v)" using Some m by simp
    have nm: "names ?r = v # names ?r'" using ex by (simp add: names_def tokens_Some)
    show ?thesis
    proof (cases "map_of ps v")
      case None
      then have "w = v" using "1.prems"(2) nm by simp
      with bind_name_absent [OF "1.prems"(1) None] ex show ?thesis
        by (simp add: scan.simps [of ps st])
    next
      case (Some val)
      then have present: "map_of ps v \<noteq> None" by simp
      from bind_name_present [OF "1.prems"(1) present]
      obtain st1 where b: "bind_name ps v st = Inr st1" and i1: "bound_present ps st1"
        and r1: "remainingSql st1 = ?r"
        by blast
      let ?st2 = "advance idx v st1"
      have i2: "bound_present ps ?st2" using i1 by (rule bound_present_advance)
      have r2: "remainingSql ?st2 = ?r'" using r1 by (simp add: advance_def)
      have f: "find (\<lambda>v. map_of ps v = None) (names (remainingSql ?st2)) = Some w"
        using "1.prems"(2) nm present r2 by simp
      have sc: "scan ps st = scan ps ?st2" using ex b by (simp add: scan.simps [of ps st])
      from "1.IH" [OF \<open>re_exec ?r = Some m\<close> m [symmetric] b i2 f] sc show ?thesis by simp
    qed
  qed
qed

lemma paramsToArray_missing:
  assumes "find (\<lambda>v. map_of ps v = None) (names sql) = Some w"
  shows "paramsToArray (JStr sql) (JObj ps) = Inl (Error (''Missing parameter: '' @ w) [])"
  using scan_missing [OF bound_present_init [of ps sql]] assms by (simp add: paramsToArray_def)

lemma firsts_acc_distinct: "distinct seen \<Longrightarrow> distinct (firsts_acc seen vs)"
  by (induction vs arbitrary: seen) auto

lemma firsts_acc_set: "set (firsts_acc seen vs) = set seen \<union> set vs"
  by (induction vs arbitrary: seen) auto

lemma first_names_distinct: "distinct (first_names sql)"
  by (simp add: first_names_def firsts_acc_distinct)

lemma first_names_set: "set (first_names sql) = set (names sql)"
  by (simp add: first_names_def firsts_acc_set)

lemma length_values_of: "map_of ps v \<noteq> None \<Longrightarrow> length (values_of ps v) = slots ps v"
  by (auto simp: values_of_def slots_def split: option.splits jsval.splits)

lemma length_concat_values:
  "\<forall>v\<in>set vs. map_of ps v \<noteq> None \<Longrightarrow>
     length (concat (map (values_of ps) vs)) = sum_list (map (slots ps) vs)"
  by (induction vs) (auto simp: length_values_of)

lemma values_at_offset:
  assumes "x \<in> set order" "\<forall>v\<in>set order. map_of ps v \<noteq> None"
  shows "take (slots ps x) (drop (offset ps order x) (concat (map (values_of ps) order))) = values_of ps x"
proof -
  let ?pre = "takeWhile (\<lambda>w. w \<noteq> x) order"
  from assms(1) obtain pre post where o: "order = pre @ x # post" and nx: "x \<notin> set pre"
    by (auto dest: split_list_first)
  have "?pre = pre" unfolding o using nx by (induction pre) auto
  with o have split: "order = ?pre @ x # post" by simp
  have sub: "\<forall>v\<in>set ?pre. map_of ps v \<noteq> None"
    using assms(2) by (meson set_takeWhileD)
  have "concat (map (values_of ps) order) =
          concat (map (values_of ps) ?pre) @ values_of ps x @ concat (map (values_of ps) post)"
    by (subst split) simp
  moreover have "length (concat (map (values_of ps) ?pre)) = offset ps order x"
    using length_concat_values [OF sub] by (simp add: offset_def)
  moreover have "length (values_of ps x) = slots ps x"
    using assms by (simp add: length_values_of)
  ultimately show ?thesis by simp
qed

lemma distinct_count_one: "x \<in> set xs \<Longrightarrow> distinct xs \<Longrightarrow> count_list xs x = 1"
  by (induction xs) auto

section \<open>The references as text\<close>

lemma dec_value_snoc: "dec_value (s @ [c]) = 10 * dec_value s + (of_char c - 48)"
  by (simp add: dec_value_def)

lemma digit_chars:
  "\<forall>d\<in>set [0 ..< 10::nat].
     char_of (48 + d) \<in> set ''0123456789'' \<and>
     of_char (char_of (48 + d) :: char) - 48 = d \<and>
     (char_of (48 + d) = CHR ''0'' \<longleftrightarrow> d = 0)"
  by code_simp

lemma digit_char:
  assumes "(d::nat) < 10"
  shows "char_of (48 + d) \<in> set ''0123456789'' \<and>
         of_char (char_of (48 + d) :: char) - 48 = d \<and>
         (char_of (48 + d) = CHR ''0'' \<longleftrightarrow> d = 0)"
proof -
  from assms have "d \<in> set [0 ..< 10]" by simp
  with digit_chars show ?thesis by (rule bspec)
qed

lemma digit_char_in: "(d::nat) < 10 \<Longrightarrow> char_of (48 + d) \<in> set ''0123456789''"
  by (drule digit_char) (erule conjunct1)

lemma digit_char_value: "(d::nat) < 10 \<Longrightarrow> of_char (char_of (48 + d) :: char) - 48 = d"
  by (drule digit_char) blast

lemma digit_char_zero: "(d::nat) < 10 \<Longrightarrow> char_of (48 + d) = CHR ''0'' \<longleftrightarrow> d = 0"
  by (drule digit_char) blast

lemma num_str_zero: "num_str 0 = ''0''"
  by code_simp

lemma num_str_nonempty: "num_str n \<noteq> []"
  by (simp add: num_str.simps [of n])

lemma num_str_digits: "set (num_str n) \<subseteq> set ''0123456789''"
proof (induction n rule: num_str.induct)
  case (1 n)
  show ?case
  proof (cases "n < 10")
    case True
    then show ?thesis using digit_char_in [of n] by (simp add: num_str.simps [of n])
  next
    case False
    have "n mod 10 < 10" by simp
    then have "char_of (48 + n mod 10) \<in> set ''0123456789''" by (rule digit_char_in)
    with "1.IH" [OF False] False show ?thesis by (simp add: num_str.simps [of n])
  qed
qed

lemma num_str_value: "dec_value (num_str n) = n"
proof (induction n rule: num_str.induct)
  case (1 n)
  show ?case
  proof (cases "n < 10")
    case True
    then show ?thesis
      using digit_char_value [of n] by (simp add: num_str.simps [of n] dec_value_def)
  next
    case False
    have "n mod 10 < 10" by simp
    then have "of_char (char_of (48 + n mod 10) :: char) - 48 = n mod 10" by (rule digit_char_value)
    with "1.IH" [OF False] False show ?thesis
      by (simp add: num_str.simps [of n] dec_value_snoc)
  qed
qed

lemma num_str_leading: "hd (num_str n) = CHR ''0'' \<Longrightarrow> num_str n = ''0''"
proof (induction n rule: num_str.induct)
  case (1 n)
  show ?case
  proof (cases "n < 10")
    case True
    with "1.prems" have "n = 0" using digit_char_zero [of n] by (simp add: num_str.simps [of n])
    then show ?thesis by (simp add: num_str_zero)
  next
    case False
    have "hd (num_str n) = hd (num_str (n div 10))"
      using False num_str_nonempty [of "n div 10"] by (simp add: num_str.simps [of n])
    with "1.prems" "1.IH" [OF False] have "num_str (n div 10) = ''0''" by simp
    then have "dec_value (num_str (n div 10)) = 0" by (simp add: dec_value_def)
    then have "n div 10 = 0" by (simp add: num_str_value)
    with False show ?thesis by simp
  qed
qed

text \<open>\<open>num_str n\<close> is the decimal numeral of \<open>n\<close>, without leading zeros.\<close>

lemma num_str_is_decimal: "is_decimal n (num_str n)"
  using num_str_nonempty [of n] num_str_digits [of n] num_str_value [of n] num_str_leading [of n]
  by (simp add: is_decimal_def)

lemma join_Cons: "join sep (r # rs) = r @ concat (map (\<lambda>r'. sep @ r') rs)"
  by (induction rs arbitrary: r) auto

text \<open>The array binding is the array constructor over the references \<open>$(n+1)\<close> to \<open>$(n+k)\<close>.\<close>

lemma append_single: "(@) [c] = (#) c"
  by (rule ext) simp

lemma join_spec_array: "''ARRAY['' @ join '','' rs @ '']'' = spec_array rs"
  by (cases rs) (simp_all add: join_Cons append_single)

lemma array_binding_spec:
  "array_binding n k = spec_array (map (\<lambda>j. ''$'' @ num_str j) [n + 1 ..< n + k + 1])"
  unfolding array_binding_def by (rule join_spec_array)

section \<open>Parameter substitution for templates without the name \<^verbatim>\<open>__proto__\<close>\<close>

text \<open>
  Let every name of the template be in the parameter mapping and none be
  \<^verbatim>\<open>__proto__\<close>, and let \<open>x\<close> occur in the template with an array \<open>xs\<close> of length \<open>k\<close>
  as its value. Then substitution succeeds; every occurrence of \<open>$x\<close> is replaced by the
  array constructor over \<open>$(i+1)\<close> to \<open>$(i+k)\<close>, where \<open>i\<close> is the number of slots taken
  by the names first seen before \<open>x\<close>; \<open>x\<close> takes exactly \<open>k\<close> slots; and the \<open>k\<close> values
  are in the positional sequence, in order, at the positions \<open>i+1..i+k\<close>.
\<close>

lemma array_parameter_binding:
  assumes "\<forall>v\<in>set (names sql). map_of ps v \<noteq> None" and "''__proto__'' \<notin> set (names sql)"
    and "x \<in> set (names sql)" and "map_of ps x = Some (JArr xs)"
  shows "\<exists>out vals.
            paramsToArray (JStr sql) (JObj ps) = Inr (out, vals) \<and>
            out = render (binding ps (first_names sql)) (tokens sql) (trailing sql) \<and>
            binding ps (first_names sql) x
              = spec_array (map (\<lambda>j. ''$'' @ num_str j)
                   [offset ps (first_names sql) x + 1 ..< offset ps (first_names sql) x + length xs + 1]) \<and>
            slots ps x = length xs \<and>
            length vals = sum_list (map (slots ps) (first_names sql)) \<and>
            take (length xs) (drop (offset ps (first_names sql) x) vals) = xs"
proof -
  let ?order = "first_names sql"
  have all: "\<forall>v\<in>set ?order. map_of ps v \<noteq> None"
    using assms(1) by (simp add: first_names_set)
  have xin: "x \<in> set ?order" using assms(3) by (simp add: first_names_set)
  have sl: "slots ps x = length xs" and va: "values_of ps x = xs"
    using assms(4) by (simp_all add: slots_def values_of_def)
  have b: "binding ps ?order x
             = spec_array (map (\<lambda>j. ''$'' @ num_str j)
                  [offset ps ?order x + 1 ..< offset ps ?order x + length xs + 1])"
    using assms(4) by (simp add: binding_def array_binding_spec)
  have r: "paramsToArray (JStr sql) (JObj ps)
             = Inr (render (binding ps ?order) (tokens sql) (trailing sql),
                    concat (map (values_of ps) ?order))"
    using paramsToArray_refines [OF assms(1,2)] by (simp add: spec_substitute_def)
  have t: "take (length xs) (drop (offset ps ?order x) (concat (map (values_of ps) ?order))) = xs"
    using values_at_offset [OF xin all] sl va by simp
  from r b sl t length_concat_values [OF all] show ?thesis by simp
qed

text \<open>
  The same for a name \<open>x\<close> whose value is not an array, however often it occurs: every
  occurrence of \<open>$x\<close> is replaced by the same reference \<open>$(i+1)\<close>; the value sits at
  position \<open>i+1\<close> of the positional sequence; and the sequence lists the values once per
  distinct name, so that \<open>x\<close> contributes its value once and its repetitions take no slot.
\<close>

lemma repeated_scalar_binding:
  assumes "\<forall>v\<in>set (names sql). map_of ps v \<noteq> None" and "''__proto__'' \<notin> set (names sql)"
    and "x \<in> set (names sql)" and "map_of ps x = Some val" and "\<not> isArray val"
  shows "\<exists>out vals.
            paramsToArray (JStr sql) (JObj ps) = Inr (out, vals) \<and>
            out = render (binding ps (first_names sql)) (tokens sql) (trailing sql) \<and>
            binding ps (first_names sql) x = ''$'' @ num_str (offset ps (first_names sql) x + 1) \<and>
            vals = concat (map (values_of ps) (first_names sql)) \<and>
            count_list (first_names sql) x = 1 \<and> values_of ps x = [val] \<and>
            slots ps x = 1 \<and>
            length vals = sum_list (map (slots ps) (first_names sql)) \<and>
            offset ps (first_names sql) x < length vals \<and>
            vals ! offset ps (first_names sql) x = val"
proof -
  let ?order = "first_names sql"
  have all: "\<forall>v\<in>set ?order. map_of ps v \<noteq> None"
    using assms(1) by (simp add: first_names_set)
  have xin: "x \<in> set ?order" using assms(3) by (simp add: first_names_set)
  have sl: "slots ps x = 1" and va: "values_of ps x = [val]"
    using assms(4,5) by (cases val; simp add: slots_def values_of_def)+
  have b: "binding ps ?order x = ''$'' @ num_str (offset ps ?order x + 1)"
    using assms(4,5) by (cases val; simp add: binding_def)
  have once: "count_list ?order x = 1"
    using xin first_names_distinct [of sql] by (rule distinct_count_one)
  have r: "paramsToArray (JStr sql) (JObj ps)
             = Inr (render (binding ps ?order) (tokens sql) (trailing sql),
                    concat (map (values_of ps) ?order))"
    using paramsToArray_refines [OF assms(1,2)] by (simp add: spec_substitute_def)
  let ?vals = "concat (map (values_of ps) ?order)"
  have t: "take 1 (drop (offset ps ?order x) ?vals) = [val]"
    using values_at_offset [OF xin all] sl va by simp
  then have lt: "offset ps ?order x < length ?vals"
    by (metis drop_all list.distinct(1) not_le_imp_less take_Nil)
  have nth: "?vals ! offset ps ?order x = val"
    using t lt by (metis hd_drop_conv_nth hd_take less_numeral_extra(1) list.sel(1))
  from r b once va sl length_concat_values [OF all] lt nth show ?thesis by simp
qed

text \<open>The scenario of the specification, and a template with a repeated name.\<close>

lemma spec_scenario:
  "paramsToArray (JStr ''SELECT * FROM t WHERE a = $id AND b = ANY($tags)'')
      (JObj [(''id'', JNum 5), (''tags'', JArr [JNum 1, JNum 2, JNum 3])])
     = Inr (''SELECT * FROM t WHERE a = $1 AND b = ANY(ARRAY[$2,$3,$4])'',
            [JNum 5, JNum 1, JNum 2, JNum 3])"
  by code_simp

lemma repeated_scenario:
  "paramsToArray (JStr ''$y < $x AND $x < $z'')
      (JObj [(''x'', JNum 7), (''y'', JArr [JNum 1, JNum 2]), (''z'', JNull)])
     = Inr (''ARRAY[$1,$2] < $3 AND $3 < $4'', [JNum 1, JNum 2, JNum 7, JNull])"
  by code_simp

section \<open>Claims about parameter substitution\<close>

text \<open>
  C9. When the parameters are already an ordered sequence, substitution is the identity:
  the template comes back unchanged and so does the sequence, whatever it contains and
  whatever placeholders the template has.
\<close>

theorem paramsToArray_sequence_identity:
  "paramsToArray (JStr sql) (JArr xs) = Inr (sql, xs)"
  by (simp add: paramsToArray_def)

theorem paramsToArray_sequence_identity_witness:
  "paramsToArray (JStr ''SELECT $a, $1'') (JArr [JNull, JArr [JNum 1]])
     = Inr (''SELECT $a, $1'', [JNull, JArr [JNum 1]])"
  by (rule paramsToArray_sequence_identity)

text \<open>
  C10, as amended. A SQL argument that is not a string fails with
  \<open>SQL must be a string\<close>, whatever the parameters are; when the SQL argument is a
  string and the parameter set is neither an array nor object-like, the call fails with
  \<open>params must be array or object\<close>. Either way the callback gets the error alone.
\<close>

theorem paramsToArray_argument_errors:
  "(\<not> isString sql \<longrightarrow> paramsToArray sql params = Inl (Error ''SQL must be a string'' [])) \<and>
   (isString sql \<and> \<not> isArray params \<and> \<not> isObjectLike params \<longrightarrow>
      paramsToArray sql params = Inl (Error ''params must be array or object'' []))"
  by (simp add: paramsToArray_def)

theorem paramsToArray_argument_errors_witness:
  "\<not> isString (JNum 5) \<and>
   paramsToArray (JNum 5) (JObj []) = Inl (Error ''SQL must be a string'' []) \<and>
   isString (JStr ''SELECT 1'') \<and> \<not> isArray (JNum 3) \<and> \<not> isObjectLike (JNum 3) \<and>
   paramsToArray (JStr ''SELECT 1'') (JNum 3) = Inl (Error ''params must be array or object'' [])"
  using paramsToArray_argument_errors [of "JNum 5" "JObj []"]
    paramsToArray_argument_errors [of "JStr ''SELECT 1''" "JNum 3"]
  by simp

text \<open>
  C10 as it is written fails when both arguments are of the wrong kind: the parameter
  set is neither an array nor object-like, yet the error is the one about the SQL.
\<close>

theorem paramsToArray_params_error_counterexample:
  "\<not> isArray (JNum 5) \<and> \<not> isObjectLike (JNum 5) \<and>
   paramsToArray (JNum 5) (JNum 5) \<noteq> Inl (Error ''params must be array or object'' [])"
  by (simp add: paramsToArray_def)

text \<open>
  C8. When the template refers to a name that the parameter mapping lacks, substitution
  fails with the error \<open>Missing parameter: w\<close>, where \<open>w\<close> is the first name of the
  template (from the left) that the mapping lacks; it is \<open>x\<close> itself when \<open>x\<close> is the
  only such name. The callback gets the error alone: no SQL, no values.
\<close>

theorem paramsToArray_missing_parameter:
  assumes "x \<in> set (names sql)" and "map_of ps x = None"
  shows "\<exists>w. find (\<lambda>v. map_of ps v = None) (names sql) = Some w \<and>
             w \<in> set (names sql) \<and> map_of ps w = None \<and>
             ((\<forall>v\<in>set (names sql). map_of ps v = None \<longrightarrow> v = x) \<longrightarrow> w = x) \<and>
             paramsToArray (JStr sql) (JObj ps) = Inl (Error (''Missing parameter: '' @ w) [])"
proof -
  from assms have "find (\<lambda>v. map_of ps v = None) (names sql) \<noteq> None"
    by (auto simp: find_None_iff)
  then obtain w where f: "find (\<lambda>v. map_of ps v = None) (names sql) = Some w" by auto
  then have "w \<in> set (names sql)" "map_of ps w = None"
    by (auto simp: find_Some_iff)
  with f paramsToArray_missing [OF f] show ?thesis by blast
qed

theorem paramsToArray_missing_parameter_witness:
  "''b'' \<in> set (names ''SELECT $a, $b, $a'') \<and> map_of [(''a'', JNum 1)] ''b'' = None \<and>
   paramsToArray (JStr ''SELECT $a, $b, $a'') (JObj [(''a'', JNum 1)])
     = Inl (Error ''Missing parameter: b'' [])"
proof -
  have n: "names ''SELECT $a, $b, $a'' = [''a'', ''b'', ''a'']" by code_simp
  have h1: "''b'' \<in> set (names ''SELECT $a, $b, $a'')" by (simp add: n)
  have h2: "map_of [(''a'', JNum 1)] ''b'' = None" by simp
  from paramsToArray_missing_parameter [OF h1 h2] show ?thesis
    using h1 by (auto simp: n)
qed

text \<open>
  C1. The code departs from the claim here. For the placeholder \<^verbatim>\<open>$__proto__\<close> bound to
  the array \<open>[1,2]\<close>, the two values are appended and two slots are taken, but no
  binding is kept: the placeholder is replaced by \<open>[object Object]\<close>, not by
  \<open>ARRAY[$2,$3]\<close>. For every template without that name the claim holds
  (\<open>array_parameter_binding\<close>, and \<open>spec_scenario\<close> for the scenario of the
  specification).
\<close>

theorem paramsToArray_proto_array:
  "paramsToArray (JStr ''SELECT $a, $__proto__'')
      (JObj [(''a'', JNum 5), (''__proto__'', JArr [JNum 1, JNum 2])])
     = Inr (''SELECT $1, [object Object]'', [JNum 5, JNum 1, JNum 2])"
  by code_simp

text \<open>
  C2. The code departs from the claim here. For the placeholder \<^verbatim>\<open>$__proto__\<close>, bound
  to the scalar \<open>5\<close> and occurring twice, \<^verbatim>\<open>map\<close> never has the name: each occurrence
  takes a new slot and appends the value again, and each is replaced by
  \<open>[object Object]\<close>; the next name gets \<open>$3\<close>. For every template without that name
  the claim holds (\<open>repeated_scalar_binding\<close>).
\<close>

theorem paramsToArray_proto_repeated:
  "paramsToArray (JStr ''SELECT $__proto__, $__proto__, $a'')
      (JObj [(''__proto__'', JNum 5), (''a'', JNum 6)])
     = Inr (''SELECT [object Object], [object Object], $3'', [JNum 5, JNum 5, JNum 6])"
  by code_simp

section \<open>Facts about the log\<close>

lemma log_emit: "log (emit e w) = log w @ [e]"
  by (simp add: emit_def)


lemma new_events_extend: "log w' = log w @ evs \<Longrightarrow> new_events w w' = evs"
  by (simp add: new_events_def)

lemma releases_simps:
  "releases [] = []"
  "releases (e # es) = release_of e @ releases es"
  "releases (es @ es') = releases es @ releases es'"
  by (simp_all add: releases_def)

lemma statements_simps:
  "statements [] = []"
  "statements (e # es) = statement_of e @ statements es"
  "statements (es @ es') = statements es @ statements es'"
  by (simp_all add: statements_def)





lemma map_of_set_prop: "map_of (set_prop d k v) k' = (if k' = k then Some v else map_of d k')"
  by (induction d) auto

lemma message_addData: "message (addData err props) = message err"
  by (simp add: addData_def)

lemma paramsToArray_no_params: "paramsToArray (JStr text) (JArr []) = Inr (text, [])"
  by (simp add: paramsToArray_def)

section \<open>Facts about transactions\<close>

lemma rollbackWithClient_log:
  "rollbackWithClient d c w = (r, w') \<Longrightarrow>
     log w' = log w @ [Query c ''ROLLBACK;'' None, Release c (r \<noteq> None)] \<and>
     r = (case run_query d (log w) c ''ROLLBACK;'' None of Inl err \<Rightarrow> Some err | Inr res \<Rightarrow> None)"
  by (auto simp: rollbackWithClient_def log_emit split: sum.splits)





text \<open>What \<^verbatim>\<open>beginTransaction\<close> does when the client is there and the first statement fails.\<close>

lemma beginTransaction_start_fails:
  assumes "pool w" and "connect d (log w) = Connected c"
    and "run_query d (log w @ [Connect]) c ''START TRANSACTION;'' (Some []) = Inl e"
    and "beginTransaction d w = (r, w')"
  shows "statements (new_events w w') = [''START TRANSACTION;'', ''ROLLBACK;'']"
    and "\<exists>b. releases (new_events w w') = [(c, b)]"
    and "r = (case run_query d (log w @ [Connect, Query c ''START TRANSACTION;'' (Some [])]) c ''ROLLBACK;'' None of
                Inl rollbackErr \<Rightarrow> Inl rollbackErr
              | Inr res \<Rightarrow> Inl (addData e [(''sqlError'', DVal (sqlError_of e)), (''sql'', DVal (JStr ''START TRANSACTION;'')),
                                             (''sqlParams'', DVal (JArr [])), (''result'', DVal JUndefined)]))"
proof -
  let ?w1 = "emit Connect w"
  let ?w2 = "emit (Query c ''START TRANSACTION;'' (Some [])) ?w1"
  have g: "getClient d w = (Inr c, ?w1)" using assms(1,2) by (simp add: getClient_def)
  have q: "queryWithClient d c (JStr ''START TRANSACTION;'') (JArr []) ?w1 =
             (Inl (addData e [(''sqlError'', DVal (sqlError_of e)), (''sql'', DVal (JStr ''START TRANSACTION;'')),
                              (''sqlParams'', DVal (JArr [])), (''result'', DVal JUndefined)]), ?w2)"
    using assms(3) by (simp add: queryWithClient_def paramsToArray_no_params log_emit)
  obtain rb w3 where rb: "rollbackWithClient d c ?w2 = (rb, w3)" by (cases "rollbackWithClient d c ?w2")
  from rollbackWithClient_log [OF rb]
  have l3: "log w3 = log w @ [Connect, Query c ''START TRANSACTION;'' (Some []),
                              Query c ''ROLLBACK;'' None, Release c (rb \<noteq> None)]"
    and rbv: "rb = (case run_query d (log w @ [Connect, Query c ''START TRANSACTION;'' (Some [])]) c ''ROLLBACK;'' None of
                      Inl err \<Rightarrow> Some err | Inr res \<Rightarrow> None)"
    by (simp_all add: log_emit)
  have w': "w' = w3" using assms(4) g q rb
    by (auto simp: beginTransaction_def split: option.splits)
  have ne: "new_events w w' = [Connect, Query c ''START TRANSACTION;'' (Some []),
                               Query c ''ROLLBACK;'' None, Release c (rb \<noteq> None)]"
    using l3 w' by (simp add: new_events_extend)
  show "statements (new_events w w') = [''START TRANSACTION;'', ''ROLLBACK;'']"
    unfolding ne by (simp add: statements_simps)
  show "\<exists>b. releases (new_events w w') = [(c, b)]"
    unfolding ne by (simp add: releases_simps)
  show "r = (case run_query d (log w @ [Connect, Query c ''START TRANSACTION;'' (Some [])]) c ''ROLLBACK;'' None of
                Inl rollbackErr \<Rightarrow> Inl rollbackErr
              | Inr res \<Rightarrow> Inl (addData e [(''sqlError'', DVal (sqlError_of e)), (''sql'', DVal (JStr ''START TRANSACTION;'')),
                                             (''sqlParams'', DVal (JArr [])), (''result'', DVal JUndefined)]))"
    using assms(4) g q rb rbv
    by (auto simp: beginTransaction_def split: option.splits sum.splits)
qed

section \<open>Facts about \<^verbatim>\<open>query\<close>\<close>

text \<open>Once the statement reaches the driver, the client is released once, whatever the driver answers.\<close>

lemma query_run_releases_once:
  assumes "pool w" and "connect d (log w) = Connected c"
    and "paramsToArray sql params = Inr (newSql, newParams)"
  shows "\<exists>b. new_events w (snd (query d sql params w))
               = [Connect, Query c newSql (Some newParams), Release c b]"
  using assms
  by (auto simp: query_def handleError_def log_emit new_events_def split: sum.splits)

text \<open>When substitution fails, nothing follows the checkout.\<close>

lemma query_substitution_error_log:
  assumes "pool w" and "connect d (log w) = Connected c"
    and "paramsToArray sql params = Inl err"
  shows "new_events w (snd (query d sql params w)) = [Connect]"
  using assms by (simp add: query_def log_emit new_events_def)

section \<open>Facts about \<^verbatim>\<open>init\<close>\<close>




section \<open>Claims about transactions, queries and the pool\<close>



text \<open>
  C4. The code departs from the claim here. When the start statement fails and the rollback fails
  too, \<^verbatim>\<open>beginTransaction\<close> passes on the rollback error as it came from the driver:
  the begin error is not attached to it (its \<open>data\<close> is empty) and is lost. There is
  one rollback and one release, as claimed. \<^verbatim>\<open>endTransaction\<close> does attach the
  earlier error, as \<open>prevErr\<close>.
\<close>

theorem beginTransaction_loses_begin_error:
  "beginTransaction failing_driver start_world
     = (Inl (Error ''rollback failed'' []),
        \<lparr>pool = True,
         log = [Connect, Query 0 ''START TRANSACTION;'' (Some []),
                Query 0 ''ROLLBACK;'' None, Release 0 True]\<rparr>)"
  by (simp add: beginTransaction_def getClient_def queryWithClient_def rollbackWithClient_def
        paramsToArray_no_params failing_driver_def start_world_def emit_def)

text \<open>
  C5. \<^verbatim>\<open>endTransaction\<close> with a failure outcome \<open>e\<close> issues exactly one rollback
  statement. If the rollback succeeds, the client is released and the error passed on is
  \<open>e\<close> with \<open>rollback: success\<close> attached. If the rollback fails with \<open>rollbackErr\<close>,
  the client is released all the same (discarded from the pool) and the error passed on
  is \<open>rollbackErr\<close> with \<open>e\<close> attached as \<open>prevErr\<close> and with \<open>rollback: fail\<close>.
\<close>

theorem endTransaction_failure_outcome:
  assumes "endTransaction d c (Some e) w = (r, w')"
  shows "statements (new_events w w') = [''ROLLBACK;''] \<and>
     (case run_query d (log w) c ''ROLLBACK;'' None of
        Inr res \<Rightarrow>
          releases (new_events w w') = [(c, False)] \<and>
          r = Some (addData e [(''rollback'', DVal (JStr ''success''))]) \<and>
          message (the r) = message e \<and>
          map_of (data (the r)) ''rollback'' = Some (DVal (JStr ''success''))
      | Inl rollbackErr \<Rightarrow>
          releases (new_events w w') = [(c, True)] \<and>
          r = Some (addData rollbackErr [(''prevErr'', DErr e), (''rollback'', DVal (JStr ''fail''))]) \<and>
          message (the r) = message rollbackErr \<and>
          map_of (data (the r)) ''prevErr'' = Some (DErr e) \<and>
          map_of (data (the r)) ''rollback'' = Some (DVal (JStr ''fail'')))"
proof -
  obtain rb w1 where rb: "rollbackWithClient d c w = (rb, w1)"
    by (cases "rollbackWithClient d c w")
  from rollbackWithClient_log [OF rb]
  have l: "log w1 = log w @ [Query c ''ROLLBACK;'' None, Release c (rb \<noteq> None)]"
    and v: "rb = (case run_query d (log w) c ''ROLLBACK;'' None of Inl err \<Rightarrow> Some err | Inr res \<Rightarrow> None)"
    by simp_all
  have w': "w' = w1" using assms rb by (auto simp: endTransaction_def split: option.splits)
  have ne: "new_events w w' = [Query c ''ROLLBACK;'' None, Release c (rb \<noteq> None)]"
    using l w' by (simp add: new_events_extend)
  have st: "statements (new_events w w') = [''ROLLBACK;'']"
    unfolding ne by (simp add: statements_simps)
  show ?thesis
  proof (cases "run_query d (log w) c ''ROLLBACK;'' None")
    case (Inr res)
    with v have "rb = None" by simp
    with assms rb have "r = Some (addData e [(''rollback'', DVal (JStr ''success''))])"
      by (simp add: endTransaction_def)
    moreover have "releases (new_events w w') = [(c, False)]"
      unfolding ne using \<open>rb = None\<close> by (simp add: releases_simps)
    ultimately show ?thesis using Inr st
      by (simp add: message_addData) (simp add: addData_def map_of_set_prop)
  next
    case (Inl rollbackErr)
    with v have rbv: "rb = Some rollbackErr" by simp
    with assms rb
    have "r = Some (addData rollbackErr [(''prevErr'', DErr e), (''rollback'', DVal (JStr ''fail''))])"
      by (simp add: endTransaction_def)
    moreover have "releases (new_events w w') = [(c, True)]"
      unfolding ne using rbv by (simp add: releases_simps)
    ultimately show ?thesis using Inl st
      by (simp add: message_addData) (simp add: addData_def map_of_set_prop)
  qed
qed

theorem endTransaction_failure_outcome_witness:
  "endTransaction steady_driver 0 (Some (Error ''boom'' [])) start_world
     = (Some (Error ''boom'' [(''rollback'', DVal (JStr ''success''))]),
        \<lparr>pool = True, log = [Query 0 ''ROLLBACK;'' None, Release 0 False]\<rparr>) \<and>
   endTransaction stuck_driver 0 (Some (Error ''boom'' [])) start_world
     = (Some (Error ''rollback failed''
                [(''prevErr'', DErr (Error ''boom'' [])), (''rollback'', DVal (JStr ''fail''))]),
        \<lparr>pool = True, log = [Query 0 ''ROLLBACK;'' None, Release 0 True]\<rparr>) \<and>
   releases (new_events start_world
      \<lparr>pool = True, log = [Query 0 ''ROLLBACK;'' None, Release 0 False]\<rparr>) = [(0, False)] \<and>
   releases (new_events start_world
      \<lparr>pool = True, log = [Query 0 ''ROLLBACK;'' None, Release 0 True]\<rparr>) = [(0, True)]"
proof -
  have a: "endTransaction steady_driver 0 (Some (Error ''boom'' [])) start_world
     = (Some (Error ''boom'' [(''rollback'', DVal (JStr ''success''))]),
        \<lparr>pool = True, log = [Query 0 ''ROLLBACK;'' None, Release 0 False]\<rparr>)"
    by (simp add: endTransaction_def rollbackWithClient_def steady_driver_def start_world_def
          emit_def addData_def)
  have b: "endTransaction stuck_driver 0 (Some (Error ''boom'' [])) start_world
     = (Some (Error ''rollback failed''
                [(''prevErr'', DErr (Error ''boom'' [])), (''rollback'', DVal (JStr ''fail''))]),
        \<lparr>pool = True, log = [Query 0 ''ROLLBACK;'' None, Release 0 True]\<rparr>)"
    by (simp add: endTransaction_def rollbackWithClient_def stuck_driver_def start_world_def
          emit_def addData_def)
  have qa: "run_query steady_driver (log start_world) 0 ''ROLLBACK;'' None = Inr (QResult 0 [])"
    by (simp add: steady_driver_def)
  have qb: "run_query stuck_driver (log start_world) 0 ''ROLLBACK;'' None = Inl (Error ''rollback failed'' [])"
    by (simp add: stuck_driver_def)
  from endTransaction_failure_outcome [OF a] endTransaction_failure_outcome [OF b] a b
  show ?thesis unfolding qa qb by simp
qed

text \<open>
  C6. The code departs from the claim here. When the checkout succeeds and parameter substitution
  fails, \<^verbatim>\<open>query\<close> passes the error to its callback and returns: the checkout is the
  only event, the client is never released. On the other paths (the driver ran the
  statement, or rejected it) the client is released once, see \<open>query_run_releases_once\<close>.
\<close>

theorem query_substitution_error_keeps_client:
  "query steady_driver (JStr ''SELECT $a'') (JObj []) start_world
     = (Inl (Error ''Missing parameter: a''
               [(''sql'', DVal (JStr ''SELECT $a'')), (''sqlParams'', DVal (JObj []))]),
        \<lparr>pool = True, log = [Connect]\<rparr>) \<and>
   connect steady_driver (log start_world) = Connected 0 \<and>
   releases (new_events start_world (snd (query steady_driver (JStr ''SELECT $a'') (JObj []) start_world))) = []"
proof -
  have p: "paramsToArray (JStr ''SELECT $a'') (JObj []) = Inl (Error ''Missing parameter: a'' [])"
    by code_simp
  have q: "query steady_driver (JStr ''SELECT $a'') (JObj []) start_world
     = (Inl (Error ''Missing parameter: a''
               [(''sql'', DVal (JStr ''SELECT $a'')), (''sqlParams'', DVal (JObj []))]),
        \<lparr>pool = True, log = [Connect]\<rparr>)"
    by (simp add: query_def p steady_driver_def start_world_def emit_def addData_def)
  show ?thesis unfolding q
    by (simp add: steady_driver_def start_world_def new_events_def releases_simps)
qed



end
